theory Spec2Isabelle
  imports Complex_Main "HOL-Library.Word"
begin

section \<open>The GELF reader of go-gelf (\<^verbatim>\<open>gelf/reader.go\<close>)\<close>

text \<open>
  The development embeds the two functions of \<^verbatim>\<open>reader.go\<close> that carry the protocol
  logic: \<^verbatim>\<open>readToMap\<close> (receive datagrams, reassemble chunks, pick a decompressor, decode
  JSON) and \<^verbatim>\<open>ReadMessage\<close> (map the decoded JSON object onto a \<^verbatim>\<open>Message\<close>).
  Go's run-time panics (an index out of range, a failed type assertion) and the errors the
  functions return are values of the type \<open>error\<close>; every function that can fail returns
  \<open>error + 'a\<close> with \<open>Inl\<close> for the failure.
\<close>

subsection \<open>Bytes, errors, decoded JSON values\<close>

type_synonym byte = "8 word"
type_synonym bytes = "byte list"

datatype error =
    ReadError string            \<comment> \<open>\<^verbatim>\<open>r.conn.Read\<close> returned an error; it is passed on as it is\<close>
  | Blocked                     \<comment> \<open>\<^verbatim>\<open>r.conn.Read\<close> never returns: no datagram is left\<close>
  | OutOfBandId bytes bytes     \<comment> \<open>\<^verbatim>\<open>out-of-band message %v (awaited %v)\<close>\<close>
  | OutOfBandNotChunked         \<comment> \<open>\<^verbatim>\<open>out-of-band message (not chunked)\<close>\<close>
  | NewReaderError              \<comment> \<open>\<^verbatim>\<open>NewReader: %s\<close>\<close>
  | JsonError                   \<comment> \<open>\<^verbatim>\<open>json.Unmarshal: %s\<close>\<close>
  | Panic                       \<comment> \<open>a run-time panic: index out of range, failed type assertion\<close>

text \<open>
  What \<^verbatim>\<open>encoding/json\<close> stores in an \<^verbatim>\<open>interface{}\<close>: \<^verbatim>\<open>nil\<close>, \<^verbatim>\<open>bool\<close>,
  \<^verbatim>\<open>float64\<close>, \<^verbatim>\<open>string\<close>, \<^verbatim>\<open>[]interface{}\<close> and \<^verbatim>\<open>map[string]interface{}\<close>.
  The type \<open>'f\<close> stands for \<^verbatim>\<open>float64\<close>: the reader only stores such values and hands
  them to the standard library, it never computes with them. The decoder never produces an
  \<^verbatim>\<open>int32\<close>, so the \<^verbatim>\<open>case int32\<close> branches of \<^verbatim>\<open>ReadMessage\<close> are dead and have no
  constructor here.

  A Go map is an association list with distinct keys; the order of the list is the order in
  which \<^verbatim>\<open>range\<close> happens to visit the map.
\<close>

datatype 'f jvalue =
    JNull
  | JBool bool
  | JNumber 'f
  | JString string
  | JArray "'f jvalue list"
  | JObject "(string \<times> 'f jvalue) list"

type_synonym 'f jobject = "(string \<times> 'f jvalue) list"

subsection \<open>What \<^verbatim>\<open>reader.go\<close> takes from outside\<close>

text \<open>
  The standard-library functions the reader calls are parameters of the model:
  \<^item> \<open>gzipNewReader b\<close>, \<open>zlibNewReader b\<close>: \<^verbatim>\<open>gzip.NewReader\<close> and \<^verbatim>\<open>zlib.NewReader\<close> over
    the buffer \<open>b\<close>; \<open>None\<close> when the constructor returns an error, otherwise the bytes the
    reader yields;
  \<^item> \<open>jsonDecode s\<close>: \<^verbatim>\<open>json.NewDecoder(cReader).Decode(&msg)\<close> on a reader that yields
    \<open>s\<close>; \<open>None\<close> when it returns an error;
  \<^item> \<open>parseFloat s\<close>: \<^verbatim>\<open>strconv.ParseFloat(s, 64)\<close>, \<open>None\<close> when \<^verbatim>\<open>err != nil\<close>;
  \<^item> \<open>toInt32 f\<close>: the conversion \<^verbatim>\<open>int32(f)\<close> of a \<^verbatim>\<open>float64\<close>.
\<close>

record 'f lib =
  gzipNewReader :: "bytes \<Rightarrow> bytes option"
  zlibNewReader :: "bytes \<Rightarrow> bytes option"
  jsonDecode :: "bytes \<Rightarrow> 'f jobject option"
  parseFloat :: "string \<Rightarrow> 'f option"
  toInt32 :: "'f \<Rightarrow> 32 word"

text \<open>
  Modelled from the spec: the struct \<^verbatim>\<open>Message\<close> is declared outside \<^verbatim>\<open>reader.go\<close>. Its
  fields are the ones \<^verbatim>\<open>ReadMessage\<close> assigns, with the types of the assigned values; the
  spec's data model lists the same fields. \<open>Extra = None\<close> is the \<^verbatim>\<open>nil\<close> map.
\<close>

record 'f Message =
  Version :: string
  Host :: string
  Short :: string
  Full :: string
  TimeUnix :: 'f
  Level :: "32 word"
  Facility :: string
  File :: string
  Line :: "32 word"
  Extra :: "(string \<rightharpoonup> 'f jvalue) option"

definition newMessage :: "('f::zero) Message" where
  \<comment> \<open>\<^verbatim>\<open>new(Message)\<close>: every field at its zero value\<close>
  "newMessage = \<lparr>Version = [], Host = [], Short = [], Full = [], TimeUnix = 0, Level = 0,
     Facility = [], File = [], Line = 0, Extra = None\<rparr>"

subsection \<open>\<^verbatim>\<open>ReadMessage\<close>: from the decoded object to the Message\<close>

definition andThen :: "error + 'a \<Rightarrow> ('a \<Rightarrow> error + 'b) \<Rightarrow> error + 'b" where
  \<comment> \<open>sequencing: the first failure ends the call\<close>
  "andThen r f = (case r of Inl e \<Rightarrow> Inl e | Inr x \<Rightarrow> f x)"

definition lookupNonNil :: "'f jobject \<Rightarrow> string \<Rightarrow> 'f jvalue option" where
  \<comment> \<open>\<^verbatim>\<open>val, ok := mapped[k]; ok && val != nil\<close>\<close>
  "lookupNonNil mapped k =
     (case map_of mapped k of
        None \<Rightarrow> None
      | Some val \<Rightarrow> if val = JNull then None else Some val)"

fun assertString :: "'f jvalue \<Rightarrow> error + string" where
  \<comment> \<open>the type assertion \<^verbatim>\<open>val.(string)\<close>, which panics on any other dynamic type\<close>
  "assertString (JString s) = Inr s"
| "assertString _ = Inl Panic"

definition readVersion :: "'f jobject \<Rightarrow> 'f Message \<Rightarrow> error + 'f Message" where
  "readVersion mapped msg =
     (case lookupNonNil mapped ''version'' of
        None \<Rightarrow> Inr msg
      | Some val \<Rightarrow> andThen (assertString val) (\<lambda>v. Inr (msg\<lparr>Version := v\<rparr>)))"

definition readHost :: "'f jobject \<Rightarrow> 'f Message \<Rightarrow> error + 'f Message" where
  "readHost mapped msg =
     (case lookupNonNil mapped ''host'' of
        None \<Rightarrow> Inr msg
      | Some val \<Rightarrow> andThen (assertString val) (\<lambda>v. Inr (msg\<lparr>Host := v\<rparr>)))"

definition readShort :: "'f jobject \<Rightarrow> 'f Message \<Rightarrow> error + 'f Message" where
  "readShort mapped msg =
     (case lookupNonNil mapped ''short_message'' of
        None \<Rightarrow> Inr msg
      | Some val \<Rightarrow> andThen (assertString val) (\<lambda>v. Inr (msg\<lparr>Short := v\<rparr>)))"

definition readFull :: "'f jobject \<Rightarrow> 'f Message \<Rightarrow> error + 'f Message" where
  "readFull mapped msg =
     (case lookupNonNil mapped ''full_message'' of
        None \<Rightarrow> Inr msg
      | Some val \<Rightarrow> andThen (assertString val)
          (\<lambda>v. if length v > 0 then Inr (msg\<lparr>Full := v\<rparr>) else Inr msg))"

definition readTimestamp :: "'f lib \<Rightarrow> 'f jobject \<Rightarrow> 'f Message \<Rightarrow> error + 'f Message" where
  "readTimestamp L mapped msg =
     (case lookupNonNil mapped ''timestamp'' of
        None \<Rightarrow> Inr msg
      | Some val \<Rightarrow>
          (case val of
             JString s \<Rightarrow>
               (case parseFloat L s of
                  Some v \<Rightarrow> Inr (msg\<lparr>TimeUnix := v\<rparr>)
                | None \<Rightarrow> Inr msg)
           | JNumber f \<Rightarrow> Inr (msg\<lparr>TimeUnix := f\<rparr>)
           | _ \<Rightarrow> Inr msg))"

definition readLevel :: "'f lib \<Rightarrow> 'f jobject \<Rightarrow> 'f Message \<Rightarrow> error + 'f Message" where
  "readLevel L mapped msg =
     (case lookupNonNil mapped ''level'' of
        None \<Rightarrow> Inr msg
      | Some val \<Rightarrow>
          (case val of
             JNumber f \<Rightarrow> Inr (msg\<lparr>Level := toInt32 L f\<rparr>)
           | _ \<Rightarrow> Inr msg))"

definition readFacility :: "'f jobject \<Rightarrow> 'f Message \<Rightarrow> error + 'f Message" where
  "readFacility mapped msg =
     (case lookupNonNil mapped ''facility'' of
        None \<Rightarrow> Inr msg
      | Some val \<Rightarrow> andThen (assertString val)
          (\<lambda>v. if length v > 0 then Inr (msg\<lparr>Facility := v\<rparr>) else Inr msg))"

definition readFile :: "'f jobject \<Rightarrow> 'f Message \<Rightarrow> error + 'f Message" where
  "readFile mapped msg =
     (case lookupNonNil mapped ''file'' of
        None \<Rightarrow> Inr msg
      | Some val \<Rightarrow> andThen (assertString val)
          (\<lambda>v. if length v > 0 then Inr (msg\<lparr>File := v\<rparr>) else Inr msg))"

definition readLine :: "'f lib \<Rightarrow> 'f jobject \<Rightarrow> 'f Message \<Rightarrow> error + 'f Message" where
  "readLine L mapped msg =
     (case lookupNonNil mapped ''line'' of
        None \<Rightarrow> Inr msg
      | Some val \<Rightarrow>
          (case val of
             JNumber f \<Rightarrow> Inr (msg\<lparr>Line := toInt32 L f\<rparr>)
           | _ \<Rightarrow> Inr msg))"

definition HasPrefix :: "string \<Rightarrow> string \<Rightarrow> bool" where
  \<comment> \<open>\<^verbatim>\<open>strings.HasPrefix(s, prefix)\<close>\<close>
  "HasPrefix s p = (length p \<le> length s \<and> take (length p) s = p)"

fun moveExtra :: "'f jobject \<Rightarrow> (string \<rightharpoonup> 'f jvalue) \<Rightarrow> (string \<rightharpoonup> 'f jvalue)" where
  \<comment> \<open>the loop \<^verbatim>\<open>for k, v := range mapped\<close>; \<^verbatim>\<open>k[1:len(k)]\<close> is \<open>drop 1 k\<close>\<close>
  "moveExtra [] extra = extra"
| "moveExtra ((k, v) # rest) extra =
     moveExtra rest (if HasPrefix k ''_'' \<and> v \<noteq> JNull then extra(drop 1 k \<mapsto> v) else extra)"

definition setExtra :: "'f jobject \<Rightarrow> 'f Message \<Rightarrow> 'f Message" where
  \<comment> \<open>\<^verbatim>\<open>extra\<close> starts as the empty map; \<^verbatim>\<open>if len(extra) > 0 { msg.Extra = extra }\<close>\<close>
  "setExtra mapped msg =
     (let extra = moveExtra mapped Map.empty
      in if extra \<noteq> Map.empty then msg\<lparr>Extra := Some extra\<rparr> else msg)"

definition messageOfMap :: "('f::zero) lib \<Rightarrow> 'f jobject \<Rightarrow> error + 'f Message" where
  \<comment> \<open>the body of \<^verbatim>\<open>ReadMessage\<close> after \<^verbatim>\<open>readToMap\<close> has returned \<open>mapped\<close>\<close>
  "messageOfMap L mapped =
     andThen (readVersion mapped newMessage) (\<lambda>msg.
     andThen (readHost mapped msg) (\<lambda>msg.
     andThen (readShort mapped msg) (\<lambda>msg.
     andThen (readFull mapped msg) (\<lambda>msg.
     andThen (readTimestamp L mapped msg) (\<lambda>msg.
     andThen (readLevel L mapped msg) (\<lambda>msg.
     andThen (readFacility mapped msg) (\<lambda>msg.
     andThen (readFile mapped msg) (\<lambda>msg.
     andThen (readLine L mapped msg) (\<lambda>msg.
     Inr (setExtra mapped msg))))))))))"

subsection \<open>The transport and the package constants\<close>

text \<open>
  Modelled from the spec: the connection \<^verbatim>\<open>r.conn\<close> is an external collaborator, a
  datagram-oriented endpoint whose \<^verbatim>\<open>Read\<close> blocks until a datagram arrives and receives up
  to the length of the buffer it is given. A connection is the list of what the next calls
  of \<^verbatim>\<open>Read\<close> will meet: a datagram or a transport error. \<open>connRead c len\<close> is one call
  with a buffer of length \<open>len\<close>: it returns the bytes written to the front of the
  buffer (the datagram, cut to the buffer's length; their number is the \<open>n\<close> that \<^verbatim>\<open>Read\<close>
  returns) and the rest of the connection.
\<close>

datatype recv = Datagram bytes | Failure string

type_synonym conn = "recv list"

fun connRead :: "conn \<Rightarrow> nat \<Rightarrow> error + (bytes \<times> conn)" where
  "connRead [] len = Inl Blocked"
| "connRead (Failure e # rest) len = Inl (ReadError e)"
| "connRead (Datagram d # rest) len = Inr (take len d, rest)"

text \<open>
  Modelled from the spec: the package constants are declared outside \<^verbatim>\<open>reader.go\<close>.
  The gzip magic is given by the spec (\<^verbatim>\<open>0x1f 0x8b\<close>); the length of the chunk header
  follows from the spec's wire format (2-byte magic, 8-byte message id, 1-byte sequence index,
  1-byte total); the chunk magic and the zlib method byte are those of the GELF and zlib
  formats. The value of \<^verbatim>\<open>ChunkSize\<close>, the spec's fixed maximum chunk size, is left open:
  it is the parameter \<open>cs\<close> of \<open>readToMap\<close>.
\<close>

definition chunkedHeaderLen :: nat where
  "chunkedHeaderLen = 12"

definition magicChunked :: bytes where
  "magicChunked = [0x1e, 0x0f]"

definition magicZlib :: bytes where
  "magicZlib = [0x78]"

definition magicGzip :: bytes where
  "magicGzip = [0x1f, 0x8b]"

subsection \<open>\<^verbatim>\<open>readToMap\<close>: the receive loop\<close>

text \<open>
  The slices \<^verbatim>\<open>cBuf\<close>, \<^verbatim>\<open>cHead\<close>, \<^verbatim>\<open>cid\<close> and \<^verbatim>\<open>ocid\<close> all share one backing array,
  the one allocated by \<^verbatim>\<open>make([]byte, ChunkSize)\<close>; inside the loop nothing reallocates it.
  The state keeps that array (\<open>arr\<close>, whose length is the capacity of \<^verbatim>\<open>cBuf\<close>) and the
  current length of \<^verbatim>\<open>cBuf\<close> (\<open>blen\<close>); \<^verbatim>\<open>cBuf\<close> always starts at offset 0. A slice of
  the array is a pair of bounds, read through the array as it is at the moment of the read.
  The elements of \<^verbatim>\<open>chunks\<close> are fresh copies (\<^verbatim>\<open>append(make([]byte, 0, n), ...)\<close>), so they are
  values; a \<^verbatim>\<open>nil\<close> element is the empty list, which \<^verbatim>\<open>append\<close> treats alike.
\<close>

type_synonym slice = "nat \<times> nat"

definition bytesOf :: "bytes \<Rightarrow> slice \<Rightarrow> bytes" where
  \<comment> \<open>the contents of the slice \<^verbatim>\<open>arr[lo:hi]\<close>\<close>
  "bytesOf a sl = take (snd sl - fst sl) (drop (fst sl) a)"

record rstate =
  arr :: bytes
  blen :: nat
  ocid :: "slice option"
  total :: byte
  chunks :: "bytes list"
  length' :: nat

definition initState :: "nat \<Rightarrow> rstate" where
  \<comment> \<open>\<^verbatim>\<open>cBuf := make([]byte, ChunkSize)\<close> and the zero values of the \<^verbatim>\<open>var\<close> block\<close>
  "initState cs = \<lparr>arr = replicate cs 0, blen = cs, ocid = None, total = 0, chunks = [],
     length' = 0\<rparr>"

function loop :: "nat \<Rightarrow> rstate \<Rightarrow> conn \<Rightarrow> error + rstate" where
  "loop got s c =
     (if got < 128 \<and> (total s = 0 \<or> got < unat (total s)) then
        (case connRead c (blen s) of
           Inl e \<Rightarrow> Inl e
         | Inr (d, c') \<Rightarrow>
             \<comment> \<open>\<^verbatim>\<open>Read\<close> has written \<open>d\<close> over the front of the array\<close>
             let a = d @ drop (length d) (arr s); n = length d in
             \<comment> \<open>\<^verbatim>\<open>cHead, cBuf = cBuf[:2], cBuf[:n]\<close>; slicing beyond the capacity panics\<close>
             if length a < 2 then Inl Panic
             else if bytesOf a (0, 2) = magicChunked then
               \<comment> \<open>\<^verbatim>\<open>cid, seq, total = cBuf[2:2+8], cBuf[2+8], cBuf[2+8+1]\<close>: the slice is
                   bounded by the capacity, the two index expressions by \<open>n\<close>\<close>
               if length a < 10 \<or> n \<le> 10 \<or> n \<le> 11 then Inl Panic
               else
                 let cid = (2, 10); seq = a ! 10; tot = a ! 11 in
                 if ocid s \<noteq> None \<and> bytesOf a cid \<noteq> bytesOf a (the (ocid s)) then
                   Inl (OutOfBandId (bytesOf a cid) (bytesOf a (the (ocid s))))
                 else
                   let ocid' = (if ocid s = None then Some cid else ocid s);
                       chunks' = (if ocid s = None then replicate (unat tot) [] else chunks s)
                   in
                   \<comment> \<open>\<^verbatim>\<open>n = len(cBuf) - chunkedHeaderLen\<close>; \<^verbatim>\<open>make([]byte, 0, n)\<close> panics when
                       \<open>n\<close> is negative, \<^verbatim>\<open>chunks[seq]\<close> when \<open>seq\<close> is out of range\<close>
                   if n < chunkedHeaderLen then Inl Panic
                   else if length chunks' \<le> unat seq then Inl Panic
                   else
                     loop (got + 1)
                       (s\<lparr>arr := a, blen := n, ocid := ocid', total := tot,
                          chunks := chunks'[unat seq := drop chunkedHeaderLen (take n a)],
                          length' := length' s + (n - chunkedHeaderLen)\<rparr>) c'
             else
               \<comment> \<open>not chunked\<close>
               if total s > 0 then Inl OutOfBandNotChunked
               else Inr (s\<lparr>arr := a, blen := n\<rparr>))
      else Inr s)"
  by pat_completeness auto
termination
  by (relation "measure (\<lambda>(got, s, c). 128 - got)") auto

declare loop.simps [simp del]

definition reassemble :: "rstate \<Rightarrow> bytes \<times> bytes" where
  \<comment> \<open>lines 203 to 213; the result is the pair \<^verbatim>\<open>(cHead, cBuf)\<close>. The \<^verbatim>\<open>append\<close> of line 205
      adds no element and leaves \<^verbatim>\<open>cBuf\<close> as it is. The chunks are appended to
      \<^verbatim>\<open>cBuf[:0]\<close>, over the front of the array; past the capacity \<^verbatim>\<open>append\<close> moves to a
      larger array with the same contents. \<^verbatim>\<open>cHead = cBuf[:2]\<close> reads two bytes of the
      array, also when \<^verbatim>\<open>cBuf\<close> is shorter.\<close>
  "reassemble s =
     (if length' s > 0 then
        let b = concat (chunks s); a = b @ drop (length b) (arr s)
        in (bytesOf a (0, 2), b)
      else (bytesOf (arr s) (0, 2), take (blen s) (arr s)))"

datatype compression = Gzip | Zlib | Uncompressed

definition detect :: "bytes \<Rightarrow> compression" where
  \<comment> \<open>the conditions of lines 216 to 227 on \<^verbatim>\<open>cHead\<close>, which has two elements\<close>
  "detect cHead =
     (if cHead = magicGzip then Gzip
      else if cHead ! 0 = magicZlib ! 0 \<and> (unat (cHead ! 0) * 256 + unat (cHead ! 1)) mod 31 = 0
        then Zlib
      else Uncompressed)"

definition openReader :: "'f lib \<Rightarrow> bytes \<Rightarrow> bytes \<Rightarrow> error + bytes" where
  \<comment> \<open>\<^verbatim>\<open>cReader\<close>, as the bytes it yields, or the \<^verbatim>\<open>NewReader\<close> error of line 230\<close>
  "openReader L cHead cBuf =
     (case detect cHead of
        Gzip \<Rightarrow> (case gzipNewReader L cBuf of None \<Rightarrow> Inl NewReaderError | Some r \<Rightarrow> Inr r)
      | Zlib \<Rightarrow> (case zlibNewReader L cBuf of None \<Rightarrow> Inl NewReaderError | Some r \<Rightarrow> Inr r)
      | Uncompressed \<Rightarrow> Inr cBuf)"

definition assemble :: "nat \<Rightarrow> conn \<Rightarrow> error + (bytes \<times> bytes)" where
  \<comment> \<open>lines 165 to 213 of \<^verbatim>\<open>readToMap\<close>: \<^verbatim>\<open>(cHead, cBuf)\<close> as they stand at line 215\<close>
  "assemble cs c = andThen (loop 0 (initState cs) c) (\<lambda>s. Inr (reassemble s))"

definition readToMap :: "nat \<Rightarrow> 'f lib \<Rightarrow> conn \<Rightarrow> error + 'f jobject" where
  "readToMap cs L c =
     andThen (assemble cs c) (\<lambda>(cHead, cBuf).
     andThen (openReader L cHead cBuf) (\<lambda>cReader.
       case jsonDecode L cReader of None \<Rightarrow> Inl JsonError | Some msg \<Rightarrow> Inr msg))"

definition ReadMessage :: "nat \<Rightarrow> ('f::zero) lib \<Rightarrow> conn \<Rightarrow> error + 'f Message" where
  "ReadMessage cs L c = andThen (readToMap cs L c) (messageOfMap L)"

section \<open>Vocabulary of the statements\<close>

subsection \<open>The field mapper\<close>

definition strictOK :: "'f jobject \<Rightarrow> string \<Rightarrow> bool" where
  \<comment> \<open>the key is absent, \<^verbatim>\<open>null\<close> or a string: the assertion \<^verbatim>\<open>val.(string)\<close> cannot panic\<close>
  "strictOK mapped k =
     (case lookupNonNil mapped k of None \<Rightarrow> True | Some (JString s) \<Rightarrow> True | Some _ \<Rightarrow> False)"

definition stringsOK :: "'f jobject \<Rightarrow> bool" where
  \<comment> \<open>the six keys whose values \<^verbatim>\<open>ReadMessage\<close> asserts to be strings\<close>
  "stringsOK mapped \<longleftrightarrow>
     strictOK mapped ''version'' \<and> strictOK mapped ''host'' \<and>
     strictOK mapped ''short_message'' \<and> strictOK mapped ''full_message'' \<and>
     strictOK mapped ''facility'' \<and> strictOK mapped ''file''"

definition stringField :: "'f jobject \<Rightarrow> string \<Rightarrow> string" where
  "stringField mapped k = (case lookupNonNil mapped k of Some (JString s) \<Rightarrow> s | _ \<Rightarrow> [])"

definition timeField :: "('f::zero) lib \<Rightarrow> 'f jobject \<Rightarrow> 'f" where
  "timeField L mapped =
     (case lookupNonNil mapped ''timestamp'' of
        Some (JNumber f) \<Rightarrow> f
      | Some (JString s) \<Rightarrow> (case parseFloat L s of Some v \<Rightarrow> v | None \<Rightarrow> 0)
      | _ \<Rightarrow> 0)"

definition intField :: "'f lib \<Rightarrow> 'f jobject \<Rightarrow> string \<Rightarrow> 32 word" where
  "intField L mapped k =
     (case lookupNonNil mapped k of Some (JNumber f) \<Rightarrow> toInt32 L f | _ \<Rightarrow> 0)"

definition extraLookup :: "'f Message \<Rightarrow> string \<Rightarrow> 'f jvalue option" where
  \<comment> \<open>\<^verbatim>\<open>msg.Extra[k]\<close>; reading a \<^verbatim>\<open>nil\<close> map finds nothing\<close>
  "extraLookup m k = (case Extra m of None \<Rightarrow> None | Some extra \<Rightarrow> extra k)"

subsection \<open>A small instance of the library, for concrete runs\<close>

text \<open>
  The decoder of this instance is a table of two payloads; its decompressors strip a two-byte
  header. The object has every kind of field the mapper looks at.
\<close>

definition demoObject :: "real jobject" where
  "demoObject =
     [(''version'', JString ''1.1''), (''host'', JString ''h1''),
      (''short_message'', JString ''boom''), (''full_message'', JString []),
      (''timestamp'', JString ''1.5''), (''level'', JNumber 3), (''facility'', JString []),
      (''_user'', JString ''alice''), (''_empty'', JNull), (''_'', JBool True)]"

definition demoPayload :: bytes where
  "demoPayload = [0x7b, 0x31, 0x7d]"

definition demoPayload' :: bytes where
  "demoPayload' = [0x7b, 0x32, 0x7d]"

definition demoLib :: "real lib" where
  "demoLib =
     \<lparr>gzipNewReader = (\<lambda>b. if take 2 b = magicGzip then Some (drop 2 b) else None),
      zlibNewReader = (\<lambda>b. if 2 \<le> length b then Some (drop 2 b) else None),
      jsonDecode = map_of [(demoPayload, demoObject),
         (demoPayload', filter (\<lambda>kv. fst kv \<noteq> ''full_message'') demoObject)],
      parseFloat = (\<lambda>s. if s = ''1.5'' then Some (3 / 2) else None),
      toInt32 = (\<lambda>f. word_of_int \<lfloor>f\<rfloor>)\<rparr>"

text \<open>
  A second object, with a facility that is not empty, and the instance whose decoder knows it.
\<close>

definition facilityObject :: "real jobject" where
  "facilityObject =
     [(''short_message'', JString ''boom''), (''facility'', JString ''auth''),
      (''level'', JNumber 3)]"

definition facilityPayload :: bytes where
  "facilityPayload = [0x7b, 0x33, 0x7d]"

definition facilityLib :: "real lib" where
  "facilityLib = demoLib\<lparr>jsonDecode := map_of [(facilityPayload, facilityObject)]\<rparr>"

subsection \<open>Chunk datagrams and the assembled buffer\<close>

text \<open>
  Modelled from the spec: the writer of chunk datagrams is not part of \<^verbatim>\<open>reader.go\<close>. A
  chunk datagram is laid out as the spec's wire format says: the 2-byte magic, the 8-byte
  message id, the sequence index, the total number of chunks, then the payload.
\<close>

definition chunkDatagram :: "bytes \<Rightarrow> nat \<Rightarrow> nat \<Rightarrow> bytes \<Rightarrow> bytes" where
  "chunkDatagram ident seq tot payload =
     magicChunked @ ident @ [of_nat seq, of_nat tot] @ payload"

fun store :: "bytes list \<Rightarrow> nat \<times> bytes \<Rightarrow> bytes list" where
  \<comment> \<open>the effect of one arrival on \<^verbatim>\<open>chunks\<close>: \<^verbatim>\<open>chunks[seq] = payload\<close>\<close>
  "store ch (sq, p) = ch[sq := p]"

definition assembled :: "nat \<Rightarrow> conn \<Rightarrow> error + bytes" where
  \<comment> \<open>the buffer \<^verbatim>\<open>cBuf\<close> that \<^verbatim>\<open>readToMap\<close> hands to decompression and decoding\<close>
  "assembled cs c = (case assemble cs c of Inl e \<Rightarrow> Inl e | Inr (cHead, cBuf) \<Rightarrow> Inr cBuf)"


subsection \<open>Concrete datagrams\<close>

definition demoId :: bytes where
  "demoId = [1, 2, 3, 4, 5, 6, 7, 8]"

definition otherId :: bytes where
  "otherId = [9, 9, 9, 9, 9, 9, 9, 9]"

definition cappedChunk :: "nat \<Rightarrow> recv" where
  \<comment> \<open>chunk \<open>i\<close> of a message of 129 chunks of one byte each\<close>
  "cappedChunk i = Datagram (chunkDatagram demoId i 129 [65])"

definition afterFirst :: rstate where
  \<comment> \<open>the loop state after a first chunk datagram of 13 bytes\<close>
  "afterFirst =
     \<lparr>arr = chunkDatagram demoId 0 2 [65] @ replicate 1407 0, blen = 13, ocid = Some (2, 10),
      total = 2, chunks = [[65], []], length' = 1\<rparr>"


section \<open>The field mapper\<close>

subsection \<open>The loop over the decoded object\<close>

lemma HasPrefix_underscore: "HasPrefix k ''_'' \<longleftrightarrow> (\<exists>r. k = CHR ''_'' # r)"
  by (cases k) (auto simp: HasPrefix_def)

lemma moveExtra_absent:
  "CHR ''_'' # k' \<notin> fst ` set mapped \<Longrightarrow> moveExtra mapped extra k' = extra k'"
proof (induction mapped arbitrary: extra)
  case Nil
  then show ?case by simp
next
  case (Cons kv rest)
  obtain k v where kv: "kv = (k, v)" by (cases kv)
  from Cons.prems kv have "k \<noteq> CHR ''_'' # k'" and "CHR ''_'' # k' \<notin> fst ` set rest" by auto
  then show ?case using Cons.IH kv by (auto simp: HasPrefix_underscore)
qed

lemma moveExtra_lookup:
  "distinct (map fst mapped) \<Longrightarrow>
   moveExtra mapped extra k' =
     (case map_of mapped (CHR ''_'' # k') of
        None \<Rightarrow> extra k'
      | Some v \<Rightarrow> if v \<noteq> JNull then Some v else extra k')"
proof (induction mapped arbitrary: extra)
  case Nil
  then show ?case by simp
next
  case (Cons kv rest)
  obtain k v where kv: "kv = (k, v)" by (cases kv)
  from Cons.prems kv have notin: "k \<notin> fst ` set rest" and d: "distinct (map fst rest)" by auto
  show ?case
  proof (cases "k = CHR ''_'' # k'")
    case True
    with notin have "CHR ''_'' # k' \<notin> fst ` set rest" by simp
    then show ?thesis using kv True by (simp add: moveExtra_absent HasPrefix_underscore)
  next
    case False
    then show ?thesis using kv Cons.IH [OF d]
      by (auto simp: HasPrefix_underscore split: option.splits)
  qed
qed

lemma moveExtra_filter:
  "\<not> HasPrefix k0 ''_'' \<Longrightarrow>
   moveExtra (filter (\<lambda>kv. fst kv \<noteq> k0) xs) extra = moveExtra xs extra"
  by (induction xs arbitrary: extra) auto

lemma map_of_filter_other:
  "k \<noteq> k0 \<Longrightarrow> map_of (filter (\<lambda>kv. fst kv \<noteq> k0) xs) k = map_of xs k"
  by (induction xs) auto

lemma map_of_filter_same: "map_of (filter (\<lambda>kv. fst kv \<noteq> k0) xs) k0 = None"
  by (induction xs) auto

subsection \<open>Each assignment block in closed form\<close>

lemma readVersion_eq:
  "Version msg = [] \<Longrightarrow> readVersion mapped msg =
     (if strictOK mapped ''version'' then Inr (msg\<lparr>Version := stringField mapped ''version''\<rparr>)
      else Inl Panic)"
  by (auto simp: readVersion_def strictOK_def stringField_def andThen_def
      split: option.splits jvalue.splits)

lemma readHost_eq:
  "Host msg = [] \<Longrightarrow> readHost mapped msg =
     (if strictOK mapped ''host'' then Inr (msg\<lparr>Host := stringField mapped ''host''\<rparr>)
      else Inl Panic)"
  by (auto simp: readHost_def strictOK_def stringField_def andThen_def
      split: option.splits jvalue.splits)

lemma readShort_eq:
  "Short msg = [] \<Longrightarrow> readShort mapped msg =
     (if strictOK mapped ''short_message''
      then Inr (msg\<lparr>Short := stringField mapped ''short_message''\<rparr>)
      else Inl Panic)"
  by (auto simp: readShort_def strictOK_def stringField_def andThen_def
      split: option.splits jvalue.splits)

lemma readFull_eq:
  "Full msg = [] \<Longrightarrow> readFull mapped msg =
     (if strictOK mapped ''full_message''
      then Inr (msg\<lparr>Full := stringField mapped ''full_message''\<rparr>)
      else Inl Panic)"
  by (auto simp: readFull_def strictOK_def stringField_def andThen_def
      split: option.splits jvalue.splits)

lemma readFacility_eq:
  "Facility msg = [] \<Longrightarrow> readFacility mapped msg =
     (if strictOK mapped ''facility'' then Inr (msg\<lparr>Facility := stringField mapped ''facility''\<rparr>)
      else Inl Panic)"
  by (auto simp: readFacility_def strictOK_def stringField_def andThen_def
      split: option.splits jvalue.splits)

lemma readFile_eq:
  "File msg = [] \<Longrightarrow> readFile mapped msg =
     (if strictOK mapped ''file'' then Inr (msg\<lparr>File := stringField mapped ''file''\<rparr>)
      else Inl Panic)"
  by (auto simp: readFile_def strictOK_def stringField_def andThen_def
      split: option.splits jvalue.splits)

lemma readTimestamp_eq:
  "TimeUnix msg = 0 \<Longrightarrow>
   readTimestamp L mapped msg = Inr (msg\<lparr>TimeUnix := timeField L mapped\<rparr>)"
  by (auto simp: readTimestamp_def timeField_def split: option.splits jvalue.splits)

lemma readLevel_eq:
  "Level msg = 0 \<Longrightarrow>
   readLevel L mapped msg = Inr (msg\<lparr>Level := intField L mapped ''level''\<rparr>)"
  by (auto simp: readLevel_def intField_def split: option.splits jvalue.splits)

lemma readLine_eq:
  "Line msg = 0 \<Longrightarrow>
   readLine L mapped msg = Inr (msg\<lparr>Line := intField L mapped ''line''\<rparr>)"
  by (auto simp: readLine_def intField_def split: option.splits jvalue.splits)

text \<open>
  The mapper fails exactly when one of the six asserted keys carries a value that is neither
  \<^verbatim>\<open>null\<close> nor a string; otherwise every field of the result is determined by its key.
\<close>

lemma messageOfMap_eq:
  "messageOfMap L mapped =
     (if stringsOK mapped then
        Inr (setExtra mapped
          \<lparr>Version = stringField mapped ''version'', Host = stringField mapped ''host'',
           Short = stringField mapped ''short_message'',
           Full = stringField mapped ''full_message'',
           TimeUnix = timeField L mapped, Level = intField L mapped ''level'',
           Facility = stringField mapped ''facility'', File = stringField mapped ''file'',
           Line = intField L mapped ''line'', Extra = None\<rparr>)
      else Inl Panic)"
  by (simp add: messageOfMap_def andThen_def newMessage_def stringsOK_def
      readVersion_eq readHost_eq readShort_eq readFull_eq readFacility_eq readFile_eq
      readTimestamp_eq readLevel_eq readLine_eq)

lemma ReadMessage_Inr:
  "ReadMessage cs L c = Inr m \<Longrightarrow> readToMap cs L c = Inr mapped \<Longrightarrow>
   messageOfMap L mapped = Inr m"
  by (simp add: ReadMessage_def andThen_def)

lemma Extra_setExtra:
  "Extra msg = None \<Longrightarrow>
   Extra (setExtra mapped msg) =
     (if moveExtra mapped Map.empty = Map.empty then None
      else Some (moveExtra mapped Map.empty))"
  by (simp add: setExtra_def Let_def)

lemma setExtra_fields:
  "Facility (setExtra mapped msg) = Facility msg"
  "TimeUnix (setExtra mapped msg) = TimeUnix msg"
  "Full (setExtra mapped msg) = Full msg"
  by (simp_all add: setExtra_def Let_def)

subsection \<open>One unchunked datagram\<close>

lemma assemble_unchunked:
  assumes "2 \<le> length d" and "length d \<le> cs" and "take 2 d \<noteq> magicChunked"
  shows "assemble cs (Datagram d # rest) = Inr (take 2 d, d)"
  using assms
  by (simp add: assemble_def andThen_def initState_def loop.simps [of 0] Let_def bytesOf_def
      reassemble_def)

lemma demo_readToMap: "readToMap 1420 demoLib [Datagram demoPayload] = Inr demoObject"
  by (simp add: readToMap_def andThen_def assemble_unchunked demoPayload_def magicChunked_def
      openReader_def detect_def magicGzip_def magicZlib_def demoLib_def demoPayload'_def)

lemma demo_readToMap':
  "readToMap 1420 demoLib [Datagram demoPayload'] =
     Inr (filter (\<lambda>kv. fst kv \<noteq> ''full_message'') demoObject)"
  by (simp add: readToMap_def andThen_def assemble_unchunked demoPayload_def magicChunked_def
      openReader_def detect_def magicGzip_def magicZlib_def demoLib_def demoPayload'_def)

lemma demo_stringsOK: "stringsOK demoObject"
  by (simp add: stringsOK_def strictOK_def lookupNonNil_def demoObject_def)

lemma demo_ReadMessage: "\<exists>m. ReadMessage 1420 demoLib [Datagram demoPayload] = Inr m"
  by (simp add: ReadMessage_def andThen_def demo_readToMap messageOfMap_eq demo_stringsOK)

subsection \<open>The claims about the field mapper\<close>

text \<open>
  Claim C3. For a decoded object with distinct keys (a Go map) on which \<^verbatim>\<open>ReadMessage\<close>
  returns a Message: \<^verbatim>\<open>Extra\<close> holds \<open>v\<close> under \<open>k\<close> if and only if the object holds the
  non-null \<open>v\<close> under \<open>_k\<close>, so the keys of \<^verbatim>\<open>Extra\<close> are the underscore keys with non-null
  values, stripped of the underscore, each with its original value, and no other key;
  \<^verbatim>\<open>Extra\<close> is a map (not \<^verbatim>\<open>nil\<close>) if and only if the object has such a key, and it is
  never an empty map.
\<close>

theorem extra_characterised:
  assumes "readToMap cs L c = Inr mapped"
    and "distinct (map fst mapped)"
    and "ReadMessage cs L c = Inr m"
  shows "(\<forall>k v. extraLookup m k = Some v \<longleftrightarrow>
            map_of mapped (CHR ''_'' # k) = Some v \<and> v \<noteq> JNull)
    \<and> (Extra m \<noteq> None \<longleftrightarrow>
          (\<exists>k v. map_of mapped k = Some v \<and> HasPrefix k ''_'' \<and> v \<noteq> JNull))
    \<and> Extra m \<noteq> Some Map.empty"
proof -
  from assms(3,1) have mm: "messageOfMap L mapped = Inr m" by (rule ReadMessage_Inr)
  let ?e = "moveExtra mapped Map.empty"
  have look: "?e k = Some v \<longleftrightarrow> map_of mapped (CHR ''_'' # k) = Some v \<and> v \<noteq> JNull" for k v
    by (auto simp: moveExtra_lookup [OF assms(2)] split: option.splits)
  have ex: "Extra m = (if ?e = Map.empty then None else Some ?e)"
    using mm by (auto simp: messageOfMap_eq Extra_setExtra split: if_splits)
  have nonempty: "?e \<noteq> Map.empty \<longleftrightarrow>
      (\<exists>k v. map_of mapped k = Some v \<and> HasPrefix k ''_'' \<and> v \<noteq> JNull)"
  proof
    assume "?e \<noteq> Map.empty"
    then obtain k v where "?e k = Some v" by (auto simp: fun_eq_iff)
    with look show "\<exists>k v. map_of mapped k = Some v \<and> HasPrefix k ''_'' \<and> v \<noteq> JNull"
      by (auto simp: HasPrefix_underscore)
  next
    assume "\<exists>k v. map_of mapped k = Some v \<and> HasPrefix k ''_'' \<and> v \<noteq> JNull"
    then obtain r v where "map_of mapped (CHR ''_'' # r) = Some v" "v \<noteq> JNull"
      by (auto simp: HasPrefix_underscore)
    with look have "?e r = Some v" by simp
    then show "?e \<noteq> Map.empty" by auto
  qed
  show ?thesis
    using look nonempty by (auto simp: ex extraLookup_def)
qed

theorem extra_characterised_witness:
  "readToMap 1420 demoLib [Datagram demoPayload] = Inr demoObject \<and>
   distinct (map fst demoObject) \<and>
   (\<exists>m. ReadMessage 1420 demoLib [Datagram demoPayload] = Inr m \<and>
     extraLookup m ''user'' = Some (JString ''alice'') \<and> extraLookup m ''empty'' = None \<and>
     extraLookup m ''host'' = None \<and> Extra m \<noteq> None)"
proof -
  have d: "distinct (map fst demoObject)" by (simp add: demoObject_def)
  from demo_ReadMessage obtain m
    where m: "ReadMessage 1420 demoLib [Datagram demoPayload] = Inr m" ..
  note ch = extra_characterised [OF demo_readToMap d m]
  from ch have u: "extraLookup m ''user'' = Some (JString ''alice'')"
    by (simp add: demoObject_def)
  from ch have "extraLookup m ''empty'' = None"
    by (cases "extraLookup m ''empty''") (simp_all add: demoObject_def)
  moreover from ch have "extraLookup m ''host'' = None"
    by (cases "extraLookup m ''host''") (simp_all add: demoObject_def)
  moreover from u have "Extra m \<noteq> None"
    by (auto simp: extraLookup_def split: option.splits)
  ultimately show ?thesis using demo_readToMap d m u by blast
qed

text \<open>
  Claim C6. When the decoded object holds a string under \<^verbatim>\<open>facility\<close>, the empty string
  included, and none of the five other string-asserted keys makes \<^verbatim>\<open>ReadMessage\<close> panic,
  \<^verbatim>\<open>ReadMessage\<close> returns a Message and its facility is that string. (The guard
  \<^verbatim>\<open>len(v) > 0\<close> skips the assignment of the empty string, which leaves the field at its
  zero value, the empty string.)
\<close>

theorem facility_assigned:
  assumes "readToMap cs L c = Inr mapped"
    and "map_of mapped ''facility'' = Some (JString v)"
    and "strictOK mapped ''version''" and "strictOK mapped ''host''"
    and "strictOK mapped ''short_message''" and "strictOK mapped ''full_message''"
    and "strictOK mapped ''file''"
  shows "\<exists>m. ReadMessage cs L c = Inr m \<and> Facility m = v"
proof -
  from assms(2) have look: "lookupNonNil mapped ''facility'' = Some (JString v)"
    by (simp add: lookupNonNil_def)
  then have "strictOK mapped ''facility''" by (simp add: strictOK_def)
  with assms(3-7) have ok: "stringsOK mapped" by (simp add: stringsOK_def)
  from look have "stringField mapped ''facility'' = v" by (simp add: stringField_def)
  with assms(1) ok show ?thesis
    by (simp add: ReadMessage_def andThen_def messageOfMap_eq setExtra_fields)
qed

text \<open>
  A facility that is not empty, and the empty one.
\<close>

theorem facility_assigned_witness:
  "(\<exists>m. ReadMessage 1420 facilityLib [Datagram facilityPayload] = Inr m \<and>
      Facility m = ''auth'') \<and>
   (\<exists>m. ReadMessage 1420 demoLib [Datagram demoPayload] = Inr m \<and> Facility m = [])"
proof -
  have r: "readToMap 1420 facilityLib [Datagram facilityPayload] = Inr facilityObject"
    by (simp add: readToMap_def andThen_def assemble_unchunked facilityPayload_def
        magicChunked_def openReader_def detect_def magicGzip_def magicZlib_def facilityLib_def)
  have "\<exists>m. ReadMessage 1420 facilityLib [Datagram facilityPayload] = Inr m \<and>
      Facility m = ''auth''"
    by (rule facility_assigned [OF r])
      (simp_all add: facilityObject_def strictOK_def lookupNonNil_def)
  moreover have "\<exists>m. ReadMessage 1420 demoLib [Datagram demoPayload] = Inr m \<and> Facility m = []"
    by (rule facility_assigned [OF demo_readToMap])
      (simp_all add: demoObject_def strictOK_def lookupNonNil_def)
  ultimately show ?thesis by (intro conjI)
qed

text \<open>
  Claim C7. When the decoded object holds the empty string under \<^verbatim>\<open>full_message\<close>,
  \<^verbatim>\<open>ReadMessage\<close> returns what it returns for the same object without that key, and the
  \<^verbatim>\<open>Full\<close> field of the Message is empty.
\<close>

theorem full_message_empty_is_absent:
  assumes "readToMap cs L c = Inr mapped"
    and "map_of mapped ''full_message'' = Some (JString [])"
    and "readToMap cs L c' = Inr (filter (\<lambda>kv. fst kv \<noteq> ''full_message'') mapped)"
  shows "ReadMessage cs L c = ReadMessage cs L c' \<and>
    (\<forall>m. ReadMessage cs L c = Inr m \<longrightarrow> Full m = [])"
proof -
  let ?m' = "filter (\<lambda>kv. fst kv \<noteq> ''full_message'') mapped"
  have other: "lookupNonNil ?m' k = lookupNonNil mapped k" if "k \<noteq> ''full_message''" for k
    using that by (simp add: lookupNonNil_def map_of_filter_other)
  have full: "lookupNonNil ?m' ''full_message'' = None"
    by (simp add: lookupNonNil_def map_of_filter_same)
  have full': "lookupNonNil mapped ''full_message'' = Some (JString [])"
    using assms(2) by (simp add: lookupNonNil_def)
  have extra: "moveExtra ?m' Map.empty = moveExtra mapped Map.empty"
    by (rule moveExtra_filter) (simp add: HasPrefix_def)
  have ok: "stringsOK ?m' = stringsOK mapped"
    by (simp add: stringsOK_def strictOK_def other full full')
  have "messageOfMap L mapped = messageOfMap L ?m'"
    by (simp add: messageOfMap_eq ok setExtra_def extra stringField_def timeField_def
        intField_def other full full')
  moreover have "Full m = []" if "messageOfMap L mapped = Inr m" for m
    using that
    by (auto simp: messageOfMap_eq setExtra_fields stringField_def full' split: if_splits)
  ultimately show ?thesis
    using assms(1,3) by (simp add: ReadMessage_def andThen_def)
qed

theorem full_message_empty_is_absent_witness:
  "readToMap 1420 demoLib [Datagram demoPayload] = Inr demoObject \<and>
   map_of demoObject ''full_message'' = Some (JString []) \<and>
   readToMap 1420 demoLib [Datagram demoPayload'] =
     Inr (filter (\<lambda>kv. fst kv \<noteq> ''full_message'') demoObject) \<and>
   ReadMessage 1420 demoLib [Datagram demoPayload] =
     ReadMessage 1420 demoLib [Datagram demoPayload'] \<and>
   (\<exists>m. ReadMessage 1420 demoLib [Datagram demoPayload] = Inr m \<and> Full m = [])"
proof -
  have look: "map_of demoObject ''full_message'' = Some (JString [])"
    by (simp add: demoObject_def)
  from demo_ReadMessage obtain m
    where m: "ReadMessage 1420 demoLib [Datagram demoPayload] = Inr m" ..
  from full_message_empty_is_absent [OF demo_readToMap look demo_readToMap'] m
  have "ReadMessage 1420 demoLib [Datagram demoPayload] =
      ReadMessage 1420 demoLib [Datagram demoPayload']" and "Full m = []"
    by simp_all
  with demo_readToMap look demo_readToMap' m show ?thesis by blast
qed

text \<open>
  Claim C8. When none of the six string-asserted keys makes \<^verbatim>\<open>ReadMessage\<close> panic, it
  returns a Message whatever the decoded object holds under \<^verbatim>\<open>timestamp\<close>, and
  \<^verbatim>\<open>TimeUnix\<close> is the number itself for a JSON number, the parsed value for a string that
  \<^verbatim>\<open>strconv.ParseFloat\<close> accepts, and zero in every other case: a string that does not
  parse, any other kind of value, \<^verbatim>\<open>null\<close>, or no such key.
\<close>

theorem timestamp_lenient:
  assumes "readToMap cs L c = Inr mapped" and "stringsOK mapped"
  shows "\<exists>m. ReadMessage cs L c = Inr m \<and>
     TimeUnix m =
       (case map_of mapped ''timestamp'' of
          Some (JNumber f) \<Rightarrow> f
        | Some (JString s) \<Rightarrow> (case parseFloat L s of Some t \<Rightarrow> t | None \<Rightarrow> 0)
        | _ \<Rightarrow> 0)"
proof -
  have "timeField L mapped =
       (case map_of mapped ''timestamp'' of
          Some (JNumber f) \<Rightarrow> f
        | Some (JString s) \<Rightarrow> (case parseFloat L s of Some t \<Rightarrow> t | None \<Rightarrow> 0)
        | _ \<Rightarrow> 0)"
    by (simp add: timeField_def lookupNonNil_def split: option.splits jvalue.splits)
  with assms show ?thesis
    by (simp add: ReadMessage_def andThen_def messageOfMap_eq setExtra_fields)
qed

theorem timestamp_lenient_witness:
  "readToMap 1420 demoLib [Datagram demoPayload] = Inr demoObject \<and> stringsOK demoObject \<and>
   (\<exists>m. ReadMessage 1420 demoLib [Datagram demoPayload] = Inr m \<and> TimeUnix m = 3 / 2)"
  using timestamp_lenient [OF demo_readToMap demo_stringsOK] demo_readToMap demo_stringsOK
  by (simp add: demoObject_def demoLib_def)

text \<open>
  Claim C9. When the decoded object (with distinct keys) holds a non-null value under the key
  that is the single character \<^verbatim>\<open>_\<close>, the Message that \<^verbatim>\<open>ReadMessage\<close> returns has an
  \<^verbatim>\<open>Extra\<close> map that holds this value under the empty string.
\<close>

theorem lone_underscore_key:
  assumes "readToMap cs L c = Inr mapped"
    and "distinct (map fst mapped)"
    and "map_of mapped ''_'' = Some v" and "v \<noteq> JNull"
    and "ReadMessage cs L c = Inr m"
  shows "\<exists>extra. Extra m = Some extra \<and> extra [] = Some v"
proof -
  from assms(5,1) have mm: "messageOfMap L mapped = Inr m" by (rule ReadMessage_Inr)
  let ?e = "moveExtra mapped Map.empty"
  have "?e [] = Some v"
    using assms(3,4) by (simp add: moveExtra_lookup [OF assms(2)])
  moreover from this have "?e \<noteq> Map.empty" by auto
  ultimately show ?thesis
    using mm by (auto simp: messageOfMap_eq Extra_setExtra split: if_splits)
qed

theorem lone_underscore_key_witness:
  "readToMap 1420 demoLib [Datagram demoPayload] = Inr demoObject \<and>
   distinct (map fst demoObject) \<and> map_of demoObject ''_'' = Some (JBool True) \<and>
   (\<exists>m extra. ReadMessage 1420 demoLib [Datagram demoPayload] = Inr m \<and>
      Extra m = Some extra \<and> extra [] = Some (JBool True))"
proof -
  have d: "distinct (map fst demoObject)" by (simp add: demoObject_def)
  have look: "map_of demoObject ''_'' = Some (JBool True)" by (simp add: demoObject_def)
  from demo_ReadMessage obtain m
    where m: "ReadMessage 1420 demoLib [Datagram demoPayload] = Inr m" ..
  from lone_underscore_key [OF demo_readToMap d look _ m]
  obtain extra where "Extra m = Some extra" "extra [] = Some (JBool True)" by auto
  with demo_readToMap d look m show ?thesis by blast
qed

section \<open>The receive loop\<close>

subsection \<open>One chunk datagram\<close>

lemma store_apply: "store ch a = ch[fst a := snd a]"
  by (cases a) simp

lemma length_chunkDatagram:
  "length ident = 8 \<Longrightarrow> length (chunkDatagram ident sq t p) = 12 + length p"
  by (simp add: chunkDatagram_def magicChunked_def)

lemma chunkDatagram_head:
  "bytesOf (chunkDatagram ident sq t p @ x) (0, 2) = magicChunked"
  by (simp add: chunkDatagram_def magicChunked_def bytesOf_def)

lemma chunkDatagram_seq:
  "length ident = 8 \<Longrightarrow> (chunkDatagram ident sq t p @ x) ! 10 = of_nat sq"
  by (simp add: chunkDatagram_def magicChunked_def nth_append)

lemma chunkDatagram_total:
  "length ident = 8 \<Longrightarrow> (chunkDatagram ident sq t p @ x) ! 11 = of_nat t"
  by (simp add: chunkDatagram_def magicChunked_def nth_append)

lemma chunkDatagram_payload:
  "length ident = 8 \<Longrightarrow> drop 12 (chunkDatagram ident sq t p) = p"
  by (simp add: chunkDatagram_def magicChunked_def)

lemma unat_byte_of_nat: "n < 256 \<Longrightarrow> unat (of_nat n :: byte) = n"
  by (simp add: unat_of_nat)

lemma loop_chunk_step:
  assumes "got < 128" and "total s = 0 \<or> got < unat (total s)"
    and "length ident = 8" and "sq < t" and "t < 256"
    and "12 + length p \<le> blen s"
    and "ocid s = None \<or> (ocid s = Some (2, 10) \<and> length (chunks s) = t)"
  shows "loop got s (Datagram (chunkDatagram ident sq t p) # c) =
     loop (got + 1)
       (s\<lparr>arr := chunkDatagram ident sq t p @ drop (12 + length p) (arr s),
          blen := 12 + length p, ocid := (if ocid s = None then Some (2, 10) else ocid s),
          total := of_nat t,
          chunks := (if ocid s = None then replicate t [] else chunks s)[sq := p],
          length' := length' s + length p\<rparr>) c"
proof -
  have sq: "sq < 256" using assms(4,5) by simp
  show ?thesis
    using assms
    by (subst loop.simps)
      (auto simp: Let_def length_chunkDatagram chunkDatagram_head chunkDatagram_seq
        chunkDatagram_total chunkDatagram_payload unat_byte_of_nat sq chunkedHeaderLen_def)
qed


lemma loop_done:
  assumes "1 \<le> t" and "t \<le> 255" and "total s = of_nat t" and "min t 128 \<le> got"
  shows "loop got s c = Inr s"
proof -
  have "unat (total s) = t" using assms by (simp add: unat_byte_of_nat)
  moreover from this have "total s \<noteq> 0" using assms(1) by auto
  ultimately show ?thesis using assms(4) by (subst loop.simps) auto
qed

lemma loop_chunk_stream:
  assumes t: "1 \<le> t" "t \<le> 255" and ident: "length ident = 8"
  shows "got + length as = min t 128 \<Longrightarrow> \<forall>a \<in> set as. fst a < t \<Longrightarrow>
     sorted_wrt (\<ge>) (map (\<lambda>a. length (snd a)) as) \<Longrightarrow>
     (as \<noteq> [] \<longrightarrow> 12 + length (snd (hd as)) \<le> blen s) \<Longrightarrow>
     (if ocid s = None then got = 0 \<and> total s = 0
      else ocid s = Some (2, 10) \<and> total s = of_nat t \<and> length (chunks s) = t) \<Longrightarrow>
     \<exists>s'. loop got s (map (\<lambda>a. Datagram (chunkDatagram ident (fst a) t (snd a))) as @ rest) = Inr s'
       \<and> chunks s' = foldl store (if ocid s = None then replicate t [] else chunks s) as
       \<and> length' s' = length' s + sum_list (map (\<lambda>a. length (snd a)) as)"
proof (induction as arbitrary: got s)
  case Nil
  then have got: "got = min t 128" by simp
  with Nil.prems t have oc: "ocid s \<noteq> None" by (auto split: if_splits)
  with Nil.prems have tot: "total s = of_nat t" by (simp split: if_splits)
  have "loop got s rest = Inr s"
    by (rule loop_done [OF t tot]) (simp add: got)
  then show ?case using oc by auto
next
  case (Cons a as)
  let ?d = "chunkDatagram ident (fst a) t (snd a)"
  let ?s1 = "s\<lparr>arr := ?d @ drop (12 + length (snd a)) (arr s),
          blen := 12 + length (snd a), ocid := (if ocid s = None then Some (2, 10) else ocid s),
          total := of_nat t,
          chunks := (if ocid s = None then replicate t [] else chunks s)[fst a := snd a],
          length' := length' s + length (snd a)\<rparr>"
  from Cons.prems(1) have got: "got < 128" "got < t" by simp_all
  have cond: "total s = 0 \<or> got < unat (total s)"
    using Cons.prems(5) got t by (auto simp: unat_byte_of_nat split: if_splits)
  have sq: "fst a < t" using Cons.prems(2) by simp
  have fit: "12 + length (snd a) \<le> blen s" using Cons.prems(4) by simp
  have oc: "ocid s = None \<or> (ocid s = Some (2, 10) \<and> length (chunks s) = t)"
    using Cons.prems(5) by (auto split: if_splits)
  have step: "loop got s (Datagram ?d # map (\<lambda>a. Datagram (chunkDatagram ident (fst a) t (snd a))) as @ rest)
      = loop (got + 1) ?s1 (map (\<lambda>a. Datagram (chunkDatagram ident (fst a) t (snd a))) as @ rest)"
    using got(1) cond ident sq _ fit oc by (rule loop_chunk_step) (use t in simp)
  have "\<exists>s'. loop (got + 1) ?s1 (map (\<lambda>a. Datagram (chunkDatagram ident (fst a) t (snd a))) as @ rest) = Inr s'
       \<and> chunks s' = foldl store (if ocid ?s1 = None then replicate t [] else chunks ?s1) as
       \<and> length' s' = length' ?s1 + sum_list (map (\<lambda>a. length (snd a)) as)"
  proof (rule Cons.IH)
    show "got + 1 + length as = min t 128" using Cons.prems(1) by simp
    show "\<forall>a\<in>set as. fst a < t" using Cons.prems(2) by simp
    show "sorted_wrt (\<ge>) (map (\<lambda>a. length (snd a)) as)" using Cons.prems(3) by simp
    show "as \<noteq> [] \<longrightarrow> 12 + length (snd (hd as)) \<le> blen ?s1"
      using Cons.prems(3) by (cases as) auto
    show "if ocid ?s1 = None then got + 1 = 0 \<and> total ?s1 = 0
      else ocid ?s1 = Some (2, 10) \<and> total ?s1 = of_nat t \<and> length (chunks ?s1) = t"
      using oc by auto
  qed
  then obtain s' where s': "loop (got + 1) ?s1 (map (\<lambda>a. Datagram (chunkDatagram ident (fst a) t (snd a))) as @ rest) = Inr s'"
      "chunks s' = foldl store (if ocid ?s1 = None then replicate t [] else chunks ?s1) as"
      "length' s' = length' ?s1 + sum_list (map (\<lambda>a. length (snd a)) as)" by blast
  have "chunks s' = foldl store (if ocid s = None then replicate t [] else chunks s) (a # as)"
    using s'(2) oc by (auto simp: store_apply [of _ a])
  moreover have "length' s' = length' s + sum_list (map (\<lambda>a. length (snd a)) (a # as))"
    using s'(3) by simp
  ultimately show ?case using step s'(1) by simp
qed

lemma assemble_chunk_stream:
  assumes "1 \<le> t" and "t \<le> 255" and "length ident = 8"
    and "length as = min t 128" and "\<forall>a \<in> set as. fst a < t"
    and "sorted_wrt (\<ge>) (map (\<lambda>a. length (snd a)) as)"
    and "12 + length (snd (hd as)) \<le> cs"
    and "\<exists>a \<in> set as. snd a \<noteq> []"
  shows "\<exists>cHead. assemble cs (map (\<lambda>a. Datagram (chunkDatagram ident (fst a) t (snd a))) as @ rest)
     = Inr (cHead, concat (foldl store (replicate t []) as))"
proof -
  have "\<exists>s'. loop 0 (initState cs) (map (\<lambda>a. Datagram (chunkDatagram ident (fst a) t (snd a))) as @ rest) = Inr s'
       \<and> chunks s' = foldl store (if ocid (initState cs) = None then replicate t [] else chunks (initState cs)) as
       \<and> length' s' = length' (initState cs) + sum_list (map (\<lambda>a. length (snd a)) as)"
    using assms(1-3)
  proof (rule loop_chunk_stream)
    show "0 + length as = min t 128" using assms(4) by simp
    show "\<forall>a \<in> set as. fst a < t" by fact
    show "sorted_wrt (\<ge>) (map (\<lambda>a. length (snd a)) as)" by fact
    show "as \<noteq> [] \<longrightarrow> 12 + length (snd (hd as)) \<le> blen (initState cs)"
      using assms(7) by (simp add: initState_def)
    show "if ocid (initState cs) = None then 0 = (0::nat) \<and> total (initState cs) = 0
      else ocid (initState cs) = Some (2, 10) \<and> total (initState cs) = of_nat t \<and> length (chunks (initState cs)) = t"
      by (simp add: initState_def)
  qed
  then obtain s' where s': "loop 0 (initState cs) (map (\<lambda>a. Datagram (chunkDatagram ident (fst a) t (snd a))) as @ rest) = Inr s'"
    "chunks s' = foldl store (replicate t []) as"
    "length' s' = sum_list (map (\<lambda>a. length (snd a)) as)"
    by (auto simp: initState_def)
  from assms(8) obtain a where a: "a \<in> set as" "snd a \<noteq> []" by blast
  then have "length (snd a) \<le> sum_list (map (\<lambda>a. length (snd a)) as)"
    by (intro member_le_sum_list) auto
  with a(2) have "length' s' > 0" using s'(3) by (cases "snd a") auto
  then show ?thesis
    using s'(1,2) by (simp add: assemble_def andThen_def reassemble_def Let_def)
qed

subsection \<open>What the stored chunks add up to\<close>

lemma length_foldl_store: "length (foldl store ch as) = length ch"
  by (induction as arbitrary: ch) auto

lemma foldl_store_nth:
  "j < length ch \<Longrightarrow> \<forall>a \<in> set as. snd a = ps ! fst a \<Longrightarrow>
   foldl store ch as ! j = (if j \<in> fst ` set as then ps ! j else ch ! j)"
proof (induction as arbitrary: ch)
  case Nil
  then show ?case by simp
next
  case (Cons a as)
  obtain i p where a: "a = (i, p)" by (cases a)
  have "foldl store (ch[i := p]) as ! j = (if j \<in> fst ` set as then ps ! j else ch[i := p] ! j)"
    using Cons.prems by (intro Cons.IH) simp_all
  then show ?case using Cons.prems a by (auto simp: nth_list_update)
qed

lemma foldl_store_all:
  assumes "length ps = t" and "set order = {..<t}"
  shows "foldl store (replicate t []) (map (\<lambda>i. (i, ps ! i)) order) = ps"
proof (rule nth_equalityI)
  show "length (foldl store (replicate t []) (map (\<lambda>i. (i, ps ! i)) order)) = length ps"
    using assms(1) by (simp add: length_foldl_store)
next
  fix j
  assume "j < length (foldl store (replicate t []) (map (\<lambda>i. (i, ps ! i)) order))"
  then have j: "j < t" by (simp add: length_foldl_store)
  then have "j \<in> fst ` set (map (\<lambda>i. (i, ps ! i)) order)"
    using assms(2) by (auto simp: image_image)
  moreover have "foldl store (replicate t []) (map (\<lambda>i. (i, ps ! i)) order) ! j =
      (if j \<in> fst ` set (map (\<lambda>i. (i, ps ! i)) order) then ps ! j else replicate t [] ! j)"
    using j by (intro foldl_store_nth) auto
  ultimately show "foldl store (replicate t []) (map (\<lambda>i. (i, ps ! i)) order) ! j = ps ! j"
    by simp
qed

lemma foldl_store_same:
  "as \<noteq> [] \<Longrightarrow> \<forall>a \<in> set as. fst a = sq \<Longrightarrow> foldl store ch as = ch[sq := snd (last as)]"
proof (induction as rule: rev_induct)
  case Nil
  then show ?case by simp
next
  case (snoc a as)
  obtain i p where a: "a = (i, p)" by (cases a)
  show ?case
  proof (cases "as = []")
    case True
    with snoc.prems a show ?thesis by simp
  next
    case False
    with snoc have "foldl store ch as = ch[sq := snd (last as)]" by simp
    with snoc.prems a show ?thesis by simp
  qed
qed

lemma concat_replicate_Nil: "concat (replicate n []) = []"
  by (induction n) simp_all

lemma concat_single_chunk: "sq < t \<Longrightarrow> concat ((replicate t [])[sq := q]) = q"
  by (simp add: upd_conv_take_nth_drop concat_replicate_Nil)


subsection \<open>The head and the message id\<close>



lemma connRead_error:
  "connRead c n = Inl e \<Longrightarrow> e = Blocked \<or> (\<exists>msg. e = ReadError msg)"
  by (cases c; cases "hd c") auto

lemma loop_unfold_cases:
  assumes "ocid s = None \<or> ocid s = Some (2, 10)"
  shows "(\<exists>e. loop got s c = Inl e \<and> (\<forall>x y. e \<noteq> OutOfBandId x y))
    \<or> (\<exists>s'. loop got s c = Inr s')
    \<or> (got < 128 \<and> (\<exists>s1 c'. loop got s c = loop (got + 1) s1 c' \<and> ocid s1 = Some (2, 10)))"
proof (cases "got < 128 \<and> (total s = 0 \<or> got < unat (total s))")
  case False
  then have "loop got s c = Inr s" by (subst loop.simps) auto
  then show ?thesis by simp
next
  case True
  show ?thesis
  proof (cases "connRead c (blen s)")
    case (Inl e)
    then have "loop got s c = Inl e" using True by (subst loop.simps) auto
    moreover from Inl have "\<forall>x y. e \<noteq> OutOfBandId x y" by (auto dest: connRead_error)
    ultimately show ?thesis by simp
  next
    case (Inr dc)
    obtain d c' where dc: "dc = (d, c')" by (cases dc)
    let ?a = "d @ drop (length d) (arr s)"
    let ?s1 = "s\<lparr>arr := ?a, blen := length d,
        ocid := (if ocid s = None then Some (2, 10) else ocid s), total := ?a ! 11,
        chunks := (if ocid s = None then replicate (unat (?a ! 11)) [] else chunks s)
          [unat (?a ! 10) := drop chunkedHeaderLen (take (length d) ?a)],
        length' := length' s + (length d - chunkedHeaderLen)\<rparr>"
    have oc: "ocid ?s1 = Some (2, 10)" using assms by auto
    have same: "ocid s \<noteq> None \<Longrightarrow> bytesOf ?a (2, 10) = bytesOf ?a (the (ocid s))"
      using assms by auto
    have rd: "connRead c (blen s) = Inr (d, c')" using Inr dc by simp
    note unfold = loop.simps [of got s c]
    have "loop got s c = Inl Panic \<or> loop got s c = Inl OutOfBandNotChunked
        \<or> loop got s c = Inr (s\<lparr>arr := ?a, blen := length d\<rparr>)
        \<or> loop got s c = loop (got + 1) ?s1 c'"
    proof (cases "length ?a < 2")
      case True
      with \<open>got < 128 \<and> _\<close> rd show ?thesis by (simp add: unfold Let_def)
    next
      case long: False
      show ?thesis
      proof (cases "bytesOf ?a (0, 2) = magicChunked")
        case False
        with \<open>got < 128 \<and> _\<close> rd long show ?thesis
          by (cases "0 < total s") (simp_all add: unfold Let_def)
      next
        case chunked: True
        show ?thesis
        proof (cases "length ?a < 10 \<or> length d \<le> 10 \<or> length d \<le> 11")
          case True
          with \<open>got < 128 \<and> _\<close> rd long chunked show ?thesis
            by (simp add: unfold Let_def)
        next
          case hdr: False
          show ?thesis
          proof (cases "ocid s")
            case None
            with \<open>got < 128 \<and> _\<close> rd long chunked hdr show ?thesis
              by (simp add: unfold Let_def)
          next
            case (Some sl)
            with assms have sl: "ocid s = Some (2, 10)" by simp
            with \<open>got < 128 \<and> _\<close> rd long chunked hdr show ?thesis
              by (simp add: unfold Let_def)
          qed
        qed
      qed
    qed
    then show ?thesis using True oc by blast
  qed
qed

lemma loop_never_out_of_band:
  "ocid s = None \<or> ocid s = Some (2, 10) \<Longrightarrow> loop got s c \<noteq> Inl (OutOfBandId x y)"
proof (induction "128 - got" arbitrary: got s c rule: less_induct)
  case less
  from loop_unfold_cases [OF less.prems, of got c]
  consider e where "loop got s c = Inl e" "\<forall>x y. e \<noteq> OutOfBandId x y"
    | s' where "loop got s c = Inr s'"
    | s1 c' where "got < 128" "loop got s c = loop (got + 1) s1 c'" "ocid s1 = Some (2, 10)"
    by blast
  then show ?case
  proof cases
    case 1
    then show ?thesis by auto
  next
    case 2
    then show ?thesis by simp
  next
    case 3
    have "loop (got + 1) s1 c' \<noteq> Inl (OutOfBandId x y)"
      by (rule less.hyps) (use 3 in simp_all)
    with 3 show ?thesis by simp
  qed
qed

lemma assemble_never_out_of_band: "assemble cs c \<noteq> Inl (OutOfBandId x y)"
  using loop_never_out_of_band [of "initState cs" 0 c x y]
  by (auto simp: assemble_def andThen_def initState_def split: sum.splits)


lemma not_chunked_while_assembling:
  assumes "got < 128" and "0 < total s" and "got < unat (total s)"
    and "2 \<le> length d" and "2 \<le> blen s" and "take 2 d \<noteq> magicChunked"
  shows "loop got s (Datagram d # c) = Inl OutOfBandNotChunked"
proof -
  have "take 2 (take (blen s) d) = take 2 d" using assms(5) by (simp add: min_def)
  then show ?thesis
    using assms by (subst loop.simps) (simp add: Let_def bytesOf_def)
qed

subsection \<open>Concrete runs\<close>

lemma run_growing:
  "assemble 1420 [Datagram (chunkDatagram demoId 0 2 [65]),
      Datagram (chunkDatagram demoId 1 2 [66, 67])] = Inr ([65, 66], [65, 66])"
  by code_simp

lemma run_last_first:
  "assemble 1420 [Datagram (chunkDatagram demoId 2 3 [69]),
      Datagram (chunkDatagram demoId 0 3 [65, 66]),
      Datagram (chunkDatagram demoId 1 3 [67, 68])] = Inr ([65, 67], [65, 67, 69])"
  by code_simp

lemma run_empty:
  "assemble 1420 [Datagram (chunkDatagram demoId 0 2 []),
      Datagram (chunkDatagram demoId 1 2 [])] = Inr ([0x1e, 0x0f], chunkDatagram demoId 1 2 [])"
  by code_simp

lemma run_capped:
  "\<exists>cHead. assemble 1420 (map cappedChunk [0..<129]) = Inr (cHead, replicate 128 65)"
proof -
  let ?as = "map (\<lambda>i. (i, [65 :: byte])) [0..<128]"
  have "\<exists>cHead. assemble 1420
      (map (\<lambda>a. Datagram (chunkDatagram demoId (fst a) 129 (snd a))) ?as @ [cappedChunk 128])
     = Inr (cHead, concat (foldl store (replicate 129 []) ?as))"
  proof (rule assemble_chunk_stream)
    show "sorted_wrt (\<ge>) (map (\<lambda>a. length (snd a)) ?as)"
      by (simp add: sorted_wrt_map)
    show "12 + length (snd (hd ?as)) \<le> 1420"
      by (simp add: hd_map upt_rec [of 0])
    show "\<exists>a \<in> set ?as. snd a \<noteq> []"
      by (auto intro: exI [of _ 0])
  qed (simp_all add: demoId_def)
  moreover have "concat (foldl store (replicate 129 []) ?as) = replicate 128 65"
    by code_simp
  moreover have "[0..<129] = [0..<128] @ [128]"
    using upt_Suc_append [of 0 128] by simp
  ultimately show ?thesis by (simp add: o_def cappedChunk_def [abs_def])
qed

lemma run_same_growing:
  "assemble 1420 [Datagram (chunkDatagram demoId 0 2 [65]),
      Datagram (chunkDatagram demoId 0 2 [66, 67])] = Inr ([66, 15], [66])"
  by code_simp

lemma run_same_empty:
  "assemble 1420 [Datagram (chunkDatagram demoId 0 2 []),
      Datagram (chunkDatagram demoId 0 2 [])] = Inr ([0x1e, 0x0f], chunkDatagram demoId 0 2 [])"
  by code_simp

lemma run_same_capped:
  "\<exists>cHead. assemble 1420 (replicate 128 (Datagram (chunkDatagram demoId 0 129 [65])) @
      [Datagram (chunkDatagram demoId 0 129 [66])]) = Inr (cHead, [65])"
proof -
  let ?as = "replicate 128 (0 :: nat, [65 :: byte])"
  have "\<exists>cHead. assemble 1420
      (map (\<lambda>a. Datagram (chunkDatagram demoId (fst a) 129 (snd a))) ?as @
        [Datagram (chunkDatagram demoId 0 129 [66])])
     = Inr (cHead, concat (foldl store (replicate 129 []) ?as))"
  proof (rule assemble_chunk_stream)
    show "sorted_wrt (\<ge>) (map (\<lambda>a. length (snd a)) ?as)"
      by (simp add: sorted_wrt_iff_nth_less)
    show "12 + length (snd (hd ?as)) \<le> 1420"
      by simp
  qed (simp_all add: demoId_def)
  moreover have "concat (foldl store (replicate 129 []) ?as) = [65]"
    by code_simp
  ultimately show ?thesis by simp
qed

lemma run_short_buffer:
  "assemble 1420 [Datagram (chunkDatagram demoId 0 2 [0x78]),
      Datagram (chunkDatagram demoId 1 0 []), Datagram [0, 1]] = Inr ([0x78, 0x01], [0x78])"
  by code_simp

lemma run_other_id:
  "assemble 1420 [Datagram (chunkDatagram demoId 0 2 [65, 66]),
      Datagram (chunkDatagram otherId 1 2 [67])] = Inr ([65, 66], [65, 66, 67])"
  by code_simp

subsection \<open>The claims about the receive loop\<close>

text \<open>
  Datagrams that are read whole. Take a message cut into \<open>t\<close> chunks \<open>ps\<close>, with
  \<open>1 \<le> t \<le> 128\<close>, one datagram per sequence index, all with the total \<open>t\<close>, arriving
  in an order in which every datagram fits the slice the loop offers it (none is longer than
  one that arrived before it, the first no longer than the chunk size), with at least one
  payload byte overall. Then the loop ends without error and the buffer is the concatenation
  of the chunks in index order.
\<close>

lemma whole_datagrams_by_index:
  assumes "1 \<le> t" and "t \<le> 128" and "length ident = 8" and "length ps = t"
    and "length order = t" and "set order = {..<t}"
    and "sorted_wrt (\<ge>) (map (\<lambda>i. length (ps ! i)) order)"
    and "12 + length (ps ! hd order) \<le> cs"
    and "concat ps \<noteq> []"
  shows "assembled cs
      (map (\<lambda>i. Datagram (chunkDatagram ident i t (ps ! i))) order @ rest) = Inr (concat ps)"
proof -
  let ?as = "map (\<lambda>i. (i, ps ! i)) order"
  from assms(9) obtain p where "p \<in> set ps" "p \<noteq> []" by auto
  then obtain i where i: "i < t" "ps ! i \<noteq> []"
    using assms(4) by (auto simp: in_set_conv_nth)
  with assms(6) have "(i, ps ! i) \<in> set ?as" by auto
  with i have ne: "\<exists>a \<in> set ?as. snd a \<noteq> []" by force
  from assms(1,5) have "order \<noteq> []" by auto
  then have hd: "snd (hd ?as) = ps ! hd order" by (simp add: hd_map)
  have "\<exists>cHead. assemble cs
      (map (\<lambda>a. Datagram (chunkDatagram ident (fst a) t (snd a))) ?as @ rest)
     = Inr (cHead, concat (foldl store (replicate t []) ?as))"
  proof (rule assemble_chunk_stream)
    show "1 \<le> t" and "t \<le> 255" and "length ident = 8" using assms(1-3) by simp_all
    show "length ?as = min t 128" using assms(2,5) by simp
    show "\<forall>a \<in> set ?as. fst a < t" using assms(6) by auto
    show "sorted_wrt (\<ge>) (map (\<lambda>a. length (snd a)) ?as)"
      using assms(7) by (simp add: o_def)
    show "12 + length (snd (hd ?as)) \<le> cs" using assms(8) hd by simp
    show "\<exists>a \<in> set ?as. snd a \<noteq> []" by (rule ne)
  qed
  then obtain cHead where run: "assemble cs
      (map (\<lambda>a. Datagram (chunkDatagram ident (fst a) t (snd a))) ?as @ rest)
     = Inr (cHead, concat (foldl store (replicate t []) ?as))" ..
  have stored: "foldl store (replicate t []) ?as = ps"
    using assms(4,6) by (rule foldl_store_all)
  have same: "map (\<lambda>a. Datagram (chunkDatagram ident (fst a) t (snd a))) ?as =
      map (\<lambda>i. Datagram (chunkDatagram ident i t (ps ! i))) order"
    by (simp add: o_def)
  show ?thesis
    unfolding assembled_def using run [unfolded stored same] by simp
qed


lemma whole_datagrams_by_index_example:
  "assembled 1420
     [Datagram (chunkDatagram demoId 0 3 [65, 66]), Datagram (chunkDatagram demoId 2 3 [68, 69]),
      Datagram (chunkDatagram demoId 1 3 [67])] = Inr [65, 66, 67, 68, 69]"
proof -
  have "set [0, 2, 1 :: nat] = {..<3}" by auto
  then show ?thesis
    using whole_datagrams_by_index [of 3 demoId "[[65, 66], [67], [68, 69]]" "[0, 2, 1]" 1420 "[]"]
    by (simp add: demoId_def)
qed

text \<open>
  Two limits the loop has by construction: it makes at most 128 reads, so of 129 chunks the
  last is never read; and it concatenates the chunks only when the accumulated payload length
  is positive, so two chunks with empty payloads leave the second datagram, header included,
  as the buffer.
\<close>

lemma receive_cap_and_length_guard:
  "assembled 1420 (map cappedChunk [0..<129]) = Inr (replicate 128 65)
   \<and> assembled 1420 [Datagram (chunkDatagram demoId 0 2 []),
      Datagram (chunkDatagram demoId 1 2 [])] = Inr (chunkDatagram demoId 1 2 [])"
proof -
  from run_capped obtain cHead
    where c: "assemble 1420 (map cappedChunk [0..<129]) = Inr (cHead, replicate 128 65)" ..
  show ?thesis
    unfolding assembled_def run_empty c by simp
qed

text \<open>
  Claim C1 fails on the code, by the slip of claim C2: each read is offered a slice as long
  as the datagram read before it, so a chunk datagram that is longer than an earlier arrival
  loses its tail. The chunks are still placed by sequence index and concatenated in index
  order, but what is placed is the truncated payload. The payload \<^verbatim>\<open>ABCDE\<close>, cut into
  chunks of 2, 2 and 1 bytes under one message id and the total 3, with the last chunk
  arriving first, is reassembled as \<^verbatim>\<open>ACE\<close>; the payload \<^verbatim>\<open>ABC\<close>, cut into chunks of 1
  and 2 bytes and delivered in order, is reassembled as \<^verbatim>\<open>AB\<close>. Neither run ends in an
  error.
\<close>

theorem reassembly_loses_bytes:
  "assembled 1420
     [Datagram (chunkDatagram demoId 2 3 [69]), Datagram (chunkDatagram demoId 0 3 [65, 66]),
      Datagram (chunkDatagram demoId 1 3 [67, 68])] = Inr [65, 67, 69]
   \<and> concat [[65, 66], [67, 68], [69 :: byte]] = [65, 66, 67, 68, 69]
   \<and> assembled 1420
     [Datagram (chunkDatagram demoId 0 2 [65]), Datagram (chunkDatagram demoId 1 2 [66, 67])]
     = Inr [65, 66]
   \<and> concat [[65], [66, 67 :: byte]] = [65, 66, 67]"
  unfolding assembled_def run_last_first run_growing by simp

text \<open>
  Claim C2 fails on the code: the statement \<^verbatim>\<open>cHead, cBuf = cBuf[:2], cBuf[:n]\<close> shortens
  \<^verbatim>\<open>cBuf\<close> to the datagram just read, and the next \<^verbatim>\<open>r.conn.Read(cBuf)\<close> is given that
  shortened slice. After a first chunk datagram of 13 bytes the second read offers 13 bytes,
  a second datagram of 14 bytes is cut to 13, and the assembled buffer lacks its last byte.
\<close>

theorem second_read_offers_first_length:
  "loop 0 (initState 1420)
     [Datagram (chunkDatagram demoId 0 2 [65]), Datagram (chunkDatagram demoId 1 2 [66, 67])]
     = loop 1 afterFirst [Datagram (chunkDatagram demoId 1 2 [66, 67])]
   \<and> blen afterFirst = 13
   \<and> length (chunkDatagram demoId 1 2 [66, 67]) = 14
   \<and> connRead [Datagram (chunkDatagram demoId 1 2 [66, 67])] (blen afterFirst)
       = Inr (chunkDatagram demoId 1 2 [66], [])
   \<and> assembled 1420
       [Datagram (chunkDatagram demoId 0 2 [65]), Datagram (chunkDatagram demoId 1 2 [66, 67])]
       = Inr [65, 66]"
proof -
  have "loop 0 (initState 1420)
     (Datagram (chunkDatagram demoId 0 2 [65]) # [Datagram (chunkDatagram demoId 1 2 [66, 67])])
     = loop (0 + 1)
         (initState 1420
            \<lparr>arr := chunkDatagram demoId 0 2 [65] @ drop (12 + length [65 :: byte]) (arr (initState 1420)),
             blen := 12 + length [65 :: byte],
             ocid := (if ocid (initState 1420) = None then Some (2, 10) else ocid (initState 1420)),
             total := of_nat 2,
             chunks := (if ocid (initState 1420) = None then replicate 2 [] else chunks (initState 1420))
               [0 := [65]],
             length' := length' (initState 1420) + length [65 :: byte]\<rparr>)
         [Datagram (chunkDatagram demoId 1 2 [66, 67])]"
    by (rule loop_chunk_step) (simp_all add: initState_def demoId_def)
  moreover have "initState 1420
            \<lparr>arr := chunkDatagram demoId 0 2 [65] @ drop (12 + length [65 :: byte]) (arr (initState 1420)),
             blen := 12 + length [65 :: byte],
             ocid := (if ocid (initState 1420) = None then Some (2, 10) else ocid (initState 1420)),
             total := of_nat 2,
             chunks := (if ocid (initState 1420) = None then replicate 2 [] else chunks (initState 1420))
               [0 := [65]],
             length' := length' (initState 1420) + length [65 :: byte]\<rparr> = afterFirst"
    by (simp add: initState_def afterFirst_def numeral_2_eq_2)
  ultimately have first: "loop 0 (initState 1420)
     [Datagram (chunkDatagram demoId 0 2 [65]), Datagram (chunkDatagram demoId 1 2 [66, 67])]
     = loop 1 afterFirst [Datagram (chunkDatagram demoId 1 2 [66, 67])]"
    by simp
  have offered: "blen afterFirst = 13"
    by (simp add: afterFirst_def)
  have len: "length (chunkDatagram demoId 1 2 [66, 67]) = 14"
    by (simp add: length_chunkDatagram demoId_def)
  have cut: "connRead [Datagram (chunkDatagram demoId 1 2 [66, 67])] (blen afterFirst)
       = Inr (chunkDatagram demoId 1 2 [66], [])"
    by (simp add: afterFirst_def chunkDatagram_def magicChunked_def demoId_def)
  have lost: "assembled 1420
       [Datagram (chunkDatagram demoId 0 2 [65]), Datagram (chunkDatagram demoId 1 2 [66, 67])]
       = Inr [65, 66]"
    unfolding assembled_def run_growing by simp
  from first offered len cut lost show ?thesis by (intro conjI)
qed

text \<open>
  Claim C4 fails on the code in its first half. \<^verbatim>\<open>ocid = cid\<close> copies a slice header, so
  \<^verbatim>\<open>ocid\<close> and every later \<^verbatim>\<open>cid\<close> are the same eight bytes of the array behind
  \<^verbatim>\<open>cBuf\<close>, which each \<^verbatim>\<open>Read\<close> overwrites: the comparison of line 184 compares the new
  id with itself. A second chunk with another message id is accepted and its payload is
  appended to the first message. No run ever ends in the out-of-band-id error
  (\<open>assemble_never_out_of_band\<close>). The second half of the claim holds for a datagram of
  at least two bytes (\<open>not_chunked_while_assembling\<close>).
\<close>

theorem other_message_id_accepted:
  "demoId \<noteq> otherId \<and>
   assembled 1420 [Datagram (chunkDatagram demoId 0 2 [65, 66]),
      Datagram (chunkDatagram otherId 1 2 [67])] = Inr [65, 66, 67]"
  unfolding assembled_def run_other_id by (simp add: demoId_def otherId_def)



text \<open>
  Claim C10, as the code has it. The loop counts arrivals: when \<open>t\<close> chunk datagrams with
  the declared total \<open>t\<close>, \<open>1 \<le> t \<le> 128\<close>, all carry the same sequence index, none is
  longer than one that arrived before it, the first is no longer than the chunk size, and
  some payload is not empty, the loop ends without error after the \<open>t\<close>-th datagram and the
  buffer is the payload delivered last; the indices never written contribute nothing.
\<close>

theorem same_index_last_wins:
  assumes "1 \<le> t" and "t \<le> 128" and "length ident = 8" and "sq < t" and "length qs = t"
    and "sorted_wrt (\<ge>) (map length qs)"
    and "12 + length (hd qs) \<le> cs"
    and "\<exists>q \<in> set qs. q \<noteq> []"
  shows "assembled cs
      (map (\<lambda>q. Datagram (chunkDatagram ident sq t q)) qs @ rest) = Inr (last qs)"
proof -
  let ?as = "map (\<lambda>q. (sq, q)) qs"
  from assms(1,5) have ne: "qs \<noteq> []" by auto
  have "\<exists>cHead. assemble cs
      (map (\<lambda>a. Datagram (chunkDatagram ident (fst a) t (snd a))) ?as @ rest)
     = Inr (cHead, concat (foldl store (replicate t []) ?as))"
  proof (rule assemble_chunk_stream)
    show "1 \<le> t" and "t \<le> 255" and "length ident = 8" using assms(1-3) by simp_all
    show "length ?as = min t 128" using assms(2,5) by simp
    show "\<forall>a \<in> set ?as. fst a < t" using assms(4) by auto
    show "sorted_wrt (\<ge>) (map (\<lambda>a. length (snd a)) ?as)"
      using assms(6) by (simp add: o_def)
    show "12 + length (snd (hd ?as)) \<le> cs" using assms(7) ne by (simp add: hd_map)
    show "\<exists>a \<in> set ?as. snd a \<noteq> []" using assms(8) by auto
  qed
  then obtain cHead where run: "assemble cs
      (map (\<lambda>a. Datagram (chunkDatagram ident (fst a) t (snd a))) ?as @ rest)
     = Inr (cHead, concat (foldl store (replicate t []) ?as))" ..
  have "foldl store (replicate t []) ?as = (replicate t [])[sq := snd (last ?as)]"
    using ne by (intro foldl_store_same) auto
  moreover have "snd (last ?as) = last qs" using ne by (simp add: last_map)
  ultimately have stored: "concat (foldl store (replicate t []) ?as) = last qs"
    using assms(4) by (simp add: concat_single_chunk)
  have same: "map (\<lambda>a. Datagram (chunkDatagram ident (fst a) t (snd a))) ?as =
      map (\<lambda>q. Datagram (chunkDatagram ident sq t q)) qs"
    by (simp add: o_def)
  show ?thesis
    unfolding assembled_def using run [unfolded stored same] by simp
qed

text \<open>
  Three datagrams for index 1 of 3, with payloads of 2, 1 and 1 bytes.
\<close>

theorem same_index_last_wins_witness:
  "assembled 1420
     [Datagram (chunkDatagram demoId 1 3 [65, 66]), Datagram (chunkDatagram demoId 1 3 [67]),
      Datagram (chunkDatagram demoId 1 3 [68])] = Inr [68]"
  using same_index_last_wins [of 3 demoId 1 "[[65, 66], [67], [68]]" 1420 "[]"]
  by (simp add: demoId_def)

text \<open>
  Claim C10 as stated fails on three inputs whose datagrams all carry index 0. Two datagrams
  of total 2, the second longer: the second read is cut and the buffer is not the second
  payload. 129 datagrams of total 129: the loop stops after 128 reads and the buffer is the
  128th payload, not the last. Two datagrams of total 2 with empty payloads: the buffer is
  the second datagram, header included.
\<close>

theorem same_index_last_wins_counterexample:
  "assembled 1420 [Datagram (chunkDatagram demoId 0 2 [65]),
      Datagram (chunkDatagram demoId 0 2 [66, 67])] \<noteq> Inr [66, 67]
   \<and> assembled 1420 (replicate 128 (Datagram (chunkDatagram demoId 0 129 [65])) @
      [Datagram (chunkDatagram demoId 0 129 [66])]) \<noteq> Inr [66]
   \<and> assembled 1420 [Datagram (chunkDatagram demoId 0 2 []),
      Datagram (chunkDatagram demoId 0 2 [])] \<noteq> Inr []"
proof -
  from run_same_capped obtain cHead
    where c: "assemble 1420 (replicate 128 (Datagram (chunkDatagram demoId 0 129 [65])) @
      [Datagram (chunkDatagram demoId 0 129 [66])]) = Inr (cHead, [65])" ..
  have e: "chunkDatagram demoId 0 2 [] \<noteq> []"
    by (simp add: chunkDatagram_def magicChunked_def)
  show ?thesis
    unfolding assembled_def run_same_growing run_same_empty c using e by simp
qed


end
